theory Spec2Isabelle
  imports Main "HOL-Library.Sublist"
begin

section \<open>Values and the remote service\<close>

text \<open>
  The component (src/components/HackerNews.tsx) trusts whatever the two endpoints send:
  the TypeScript interface \<open>HNStory\<close> is erased at run time, so a story is a parsed JSON
  value. Numbers are modelled as integers (identifiers, scores and timestamps of the
  service are integers).
\<close>

datatype json =
    JNull
  | JBool bool
  | JNum int
  | JStr string
  | JArr "json list"
  | JObj "(string \<times> json) list"

text \<open>
  What one \<open>fetch(url)\<close> gives: the promise rejects when the host cannot be reached;
  otherwise it resolves to a response with a status code (any status, \<open>fetch\<close> does not
  reject on 4xx or 5xx) and a body, which is \<open>None\<close> when it is not JSON text.
\<close>

datatype fetched = Unreachable | Response nat "json option"

datatype js_error = TypeError | SyntaxError

text \<open>
  The remote service as one load sees it: the answer of the index endpoint
  (\<open>topstories.json\<close>) and the answer of the item endpoint for the identifier spliced
  into the URL \<open>item/${id}.json\<close>.
\<close>

record remote =
  topstories :: fetched
  item :: "json \<Rightarrow> fetched"

text \<open>\<open>await fetch(url)\<close> followed by \<open>await response.json()\<close> (lines 35-36 and 39-40).\<close>

fun fetch_json :: "fetched \<Rightarrow> js_error + json" where
  "fetch_json Unreachable = Inl TypeError"
| "fetch_json (Response status None) = Inl SyntaxError"
| "fetch_json (Response status (Some v)) = Inr v"

text \<open>
  \<open>xs.slice(0, end)\<close> on an array: a negative \<open>end\<close> counts from the end of the array,
  any other one is cut down to the length.
\<close>

definition slice0 :: "int \<Rightarrow> 'a list \<Rightarrow> 'a list" where
  "slice0 end xs =
     (if end < 0 then take (length xs - nat (- end)) xs else take (nat end) xs)"

text \<open>
  \<open>storyIds.slice(0, initialLimit).map(f)\<close> (line 38). Only an array has both methods:
  on \<open>null\<close>, a boolean, a number or an object \<open>slice\<close> is missing, on a string
  \<open>slice\<close> returns a string and \<open>map\<close> is missing; each is a TypeError.
\<close>

fun slice_map :: "json \<Rightarrow> int \<Rightarrow> (json \<Rightarrow> 'b) \<Rightarrow> js_error + 'b list" where
  "slice_map (JArr ids) lim f = Inr (map f (slice0 lim ids))"
| "slice_map JNull lim f = Inl TypeError"
| "slice_map (JBool b) lim f = Inl TypeError"
| "slice_map (JNum n) lim f = Inl TypeError"
| "slice_map (JStr s) lim f = Inl TypeError"
| "slice_map (JObj kvs) lim f = Inl TypeError"

text \<open>
  \<open>await Promise.all(promises)\<close> (line 43): the list of the values when every promise
  is fulfilled, a rejection as soon as one promise is rejected. Which rejection wins when
  several promises are rejected depends on the order in which they settle; the model
  takes the leftmost one, and the handler of line 45 does not look at it.
\<close>

fun Promise_all :: "('e + 'a) list \<Rightarrow> 'e + 'a list" where
  "Promise_all [] = Inr []"
| "Promise_all (Inl e # ps) = Inl e"
| "Promise_all (Inr v # ps) =
     (case Promise_all ps of Inl e \<Rightarrow> Inl e | Inr vs \<Rightarrow> Inr (v # vs))"

text \<open>\<open>Boolean(v)\<close>, the predicate of \<open>filter(Boolean)\<close> on line 44.\<close>

fun Boolean :: "json \<Rightarrow> bool" where
  "Boolean JNull = False"
| "Boolean (JBool b) = b"
| "Boolean (JNum n) = (n \<noteq> 0)"
| "Boolean (JStr s) = (s \<noteq> [])"
| "Boolean (JArr xs) = True"
| "Boolean (JObj kvs) = True"

section \<open>Feed state and the fetch cycle\<close>

text \<open>The four \<open>useState\<close> cells of lines 23-26.\<close>

record feed_state =
  stories :: "json list"
  loading :: bool
  refreshing :: bool
  error :: "string option"

definition initial_feed :: feed_state where
  "initial_feed = \<lparr>stories = [], loading = True, refreshing = False, error = None\<rparr>"

definition failure_message :: string where
  "failure_message = ''Failed to fetch Hacker News stories. Please try again later.''"

text \<open>
  The synchronous head of \<open>fetchStories\<close> (lines 29-32), which runs when the function
  is called.
\<close>

definition fetchStories_begin :: "bool \<Rightarrow> feed_state \<Rightarrow> feed_state" where
  "fetchStories_begin isRefresh st =
     (if isRefresh then st\<lparr>refreshing := True\<rparr> else st\<lparr>loading := True\<rparr>)\<lparr>error := None\<rparr>"

text \<open>Lines 35-43: everything the \<open>try\<close> block awaits, up to the detail results.\<close>

definition storyResults :: "remote \<Rightarrow> int \<Rightarrow> js_error + json list" where
  "storyResults r initialLimit =
     (case fetch_json (topstories r) of
        Inl e \<Rightarrow> Inl e
      | Inr storyIds \<Rightarrow>
          (case slice_map storyIds initialLimit (\<lambda>id. fetch_json (item r id)) of
             Inl e \<Rightarrow> Inl e
           | Inr storyPromises \<Rightarrow> Promise_all storyPromises))"

text \<open>
  A block of the \<open>try\<close> statement leaves a state and, when it threw, the exception that
  is still in flight. The \<open>try\<close> block writes the state in its last statement only
  (line 44), so an exception leaves the state as it found it.
\<close>

type_synonym completion = "feed_state \<times> js_error option"

definition try_block :: "remote \<Rightarrow> int \<Rightarrow> feed_state \<Rightarrow> completion" where
  "try_block r initialLimit st =
     (case storyResults r initialLimit of
        Inl e \<Rightarrow> (st, Some e)
      | Inr results \<Rightarrow> (st\<lparr>stories := filter Boolean results\<rparr>, None))"

text \<open>Lines 45-47; \<open>console.error\<close> writes to the console only.\<close>

fun catch_block :: "completion \<Rightarrow> completion" where
  "catch_block (st, Some err) = (st\<lparr>error := Some failure_message\<rparr>, None)"
| "catch_block (st, None) = (st, None)"

text \<open>Lines 48-51: runs on every path and keeps an exception that is still in flight.\<close>

fun finally_block :: "completion \<Rightarrow> completion" where
  "finally_block (st, exn) = (st\<lparr>loading := False, refreshing := False\<rparr>, exn)"

text \<open>
  The rest of \<open>fetchStories\<close> (lines 34-51), which runs when the awaited requests have
  settled: the state it leaves and the exception its promise is rejected with, if any.
\<close>

definition fetchStories_settle :: "remote \<Rightarrow> int \<Rightarrow> feed_state \<Rightarrow> completion" where
  "fetchStories_settle r initialLimit st =
     finally_block (catch_block (try_block r initialLimit st))"

text \<open>One whole call with nothing else running in between.\<close>

definition fetchStories :: "remote \<Rightarrow> int \<Rightarrow> bool \<Rightarrow> feed_state \<Rightarrow> completion" where
  "fetchStories r initialLimit isRefresh st =
     fetchStories_settle r initialLimit (fetchStories_begin isRefresh st)"



section \<open>Auxiliary facts\<close>





lemma length_slice0: "0 \<le> lim \<Longrightarrow> length (slice0 lim xs) \<le> nat lim"
  by (simp add: slice0_def)





lemma settle_fulfilled:
  "storyResults r lim = Inr results \<Longrightarrow>
   fetchStories_settle r lim st =
     (st\<lparr>stories := filter Boolean results, loading := False, refreshing := False\<rparr>, None)"
  by (simp add: fetchStories_settle_def try_block_def)

lemma settle_rejected:
  "storyResults r lim = Inl e \<Longrightarrow>
   fetchStories_settle r lim st =
     (st\<lparr>error := Some failure_message, loading := False, refreshing := False\<rparr>, None)"
  by (simp add: fetchStories_settle_def try_block_def)


lemma fetchStories_fulfilled:
  "storyResults r lim = Inr results \<Longrightarrow>
   fetchStories r lim isRefresh st =
     (st\<lparr>stories := filter Boolean results, loading := False, refreshing := False,
         error := None\<rparr>, None)"
  by (simp add: fetchStories_def settle_fulfilled fetchStories_begin_def)

lemma fetchStories_rejected:
  "storyResults r lim = Inl e \<Longrightarrow>
   fetchStories r lim isRefresh st =
     (st\<lparr>loading := False, refreshing := False, error := Some failure_message\<rparr>, None)"
  by (simp add: fetchStories_def settle_rejected fetchStories_begin_def)

section \<open>The scenario of the specification\<close>

definition story :: "int \<Rightarrow> json" where
  "story n = JObj [(''id'', JNum n), (''title'', JStr ''A title''), (''by'', JStr ''pg''),
     (''time'', JNum 1160418111), (''score'', JNum 57), (''descendants'', JNum 15),
     (''type'', JStr ''story'')]"

definition ok :: "json \<Rightarrow> fetched" where
  "ok v = Response 200 (Some v)"

text \<open>The index is \<open>[10, 20, 30]\<close> and item 20 has been deleted: its body is \<open>null\<close>.\<close>

definition deleted_20 :: remote where
  "deleted_20 =
     \<lparr>topstories = ok (JArr [JNum 10, JNum 20, JNum 30]),
      item = (\<lambda>id. if id = JNum 10 then ok (story 10)
                    else if id = JNum 30 then ok (story 30) else ok JNull)\<rparr>"



text \<open>The service cannot be reached at all.\<close>

definition offline :: remote where
  "offline = \<lparr>topstories = Unreachable, item = (\<lambda>id. Unreachable)\<rparr>"

text \<open>A feed that shows one story from an earlier load.\<close>

definition showing_7 :: feed_state where
  "showing_7 = \<lparr>stories = [story 7], loading = False, refreshing = False, error = None\<rparr>"

lemma story_truthy: "Boolean (story n)"
  by (simp add: story_def)

lemma storyResults_deleted_20:
  "storyResults deleted_20 3 = Inr [story 10, JNull, story 30]"
  by (simp add: storyResults_def deleted_20_def ok_def slice0_def)


section \<open>The published sequence\<close>




section \<open>Failures of the detail fetches\<close>







section \<open>Failures of the index fetch\<close>







section \<open>Reloading\<close>

text \<open>
  Claim C9. After a successful load, \<open>retry()\<close>, that is \<open>fetchStories(false)\<close>,
  against the same remote answers and with the same limit succeeds again and leaves the
  same \<open>stories\<close> sequence.
\<close>

theorem reload_idempotent:
  assumes "error (fst (fetchStories r L isRefresh st)) = None"
  shows "stories (fst (fetchStories r L False (fst (fetchStories r L isRefresh st)))) =
           stories (fst (fetchStories r L isRefresh st))
         \<and> error (fst (fetchStories r L False (fst (fetchStories r L isRefresh st)))) = None"
proof (cases "storyResults r L")
  case (Inl e)
  with assms show ?thesis by (simp add: fetchStories_rejected)
next
  case (Inr results)
  then show ?thesis by (simp add: fetchStories_fulfilled)
qed

theorem reload_idempotent_witness:
  "error (fst (fetchStories deleted_20 3 True showing_7)) = None
   \<and> stories (fst (fetchStories deleted_20 3 False (fst (fetchStories deleted_20 3 True showing_7)))) =
       [story 10, story 30]
   \<and> stories (fst (fetchStories deleted_20 3 True showing_7)) = [story 10, story 30]"
proof -
  have ok: "error (fst (fetchStories deleted_20 3 True showing_7)) = None"
    by (simp add: fetchStories_fulfilled [OF storyResults_deleted_20])
  from reload_idempotent [OF ok] ok
  show ?thesis by (simp add: fetchStories_fulfilled [OF storyResults_deleted_20] story_truthy)
qed

section \<open>Host names\<close>

text \<open>
  \<open>s.replace(pat, rep)\<close> with a string pattern: the first occurrence of \<open>pat\<close> in
  \<open>s\<close>, wherever it is, is replaced (\<open>rep\<close> holds no \<open>$\<close> pattern here).
\<close>

fun replace_first :: "string \<Rightarrow> string \<Rightarrow> string \<Rightarrow> string" where
  "replace_first pat rep [] = (if pat = [] then rep else [])"
| "replace_first pat rep (c # cs) =
     (if prefix pat (c # cs) then rep @ drop (length pat) (c # cs)
      else c # replace_first pat rep cs)"

text \<open>
  \<open>getHostname\<close> (lines 63-70). The URL parser of the platform is a parameter:
  \<open>URL_hostname u\<close> is \<open>new URL(u).hostname\<close>, and \<open>None\<close> when the constructor
  throws. The argument is \<open>None\<close> for \<open>undefined\<close>; \<open>!url\<close> also holds for the
  empty string.
\<close>

definition getHostname :: "(string \<Rightarrow> string option) \<Rightarrow> string option \<Rightarrow> string" where
  "getHostname URL_hostname url =
     (case url of
        None \<Rightarrow> []
      | Some u \<Rightarrow>
          if u = [] then []
          else (case URL_hostname u of
                  None \<Rightarrow> []
                | Some hostname \<Rightarrow> replace_first ''www.'' [] hostname))"

text \<open>
  The specification's \<open>hostnameOf\<close>, in its own words: the host with a leading
  \<open>www.\<close> prefix stripped, the empty string when the URL is absent or unparsable.
\<close>

definition hostnameOf_spec :: "(string \<Rightarrow> string option) \<Rightarrow> string option \<Rightarrow> string" where
  "hostnameOf_spec URL_hostname url =
     (case url of
        None \<Rightarrow> []
      | Some u \<Rightarrow>
          (case URL_hostname u of
             None \<Rightarrow> []
           | Some host \<Rightarrow> if prefix ''www.'' host then drop 4 host else host))"

text \<open>The answers of the platform's parser on the URLs used below.\<close>

definition parser_sample :: "string \<Rightarrow> string option" where
  "parser_sample u =
     (if u = ''https://www.example.com/a'' then Some ''www.example.com''
      else if u = ''https://mywww.example.com/a'' then Some ''mywww.example.com''
      else None)"

lemma replace_first_leading: "prefix pat s \<Longrightarrow> replace_first pat [] s = drop (length pat) s"
  by (cases s) simp_all

lemma getHostname_examples:
  "getHostname parser_sample (Some ''https://www.example.com/a'') = ''example.com''"
  "getHostname parser_sample (Some ''not a url'') = ''''"
  "getHostname parser_sample None = ''''"
  by (simp_all add: getHostname_def parser_sample_def)

text \<open>
  Claim C4 fails on the code for a host that holds \<open>www.\<close> elsewhere than at its
  start: \<open>replace\<close> removes the first occurrence wherever it is, so the host
  \<open>mywww.example.com\<close>, which has no leading \<open>www.\<close> and which the claim leaves as
  it is, is shown as \<open>myexample.com\<close>.
\<close>

theorem getHostname_inner_www:
  "getHostname parser_sample (Some ''https://mywww.example.com/a'') = ''myexample.com''
   \<and> hostnameOf_spec parser_sample (Some ''https://mywww.example.com/a'') = ''mywww.example.com''"
  by (simp add: getHostname_def hostnameOf_spec_def parser_sample_def)

section \<open>The rendered view\<close>

text \<open>
  The \<open>main\<close> element (lines 107-196) shows one of three things: the spinner, the error
  text with the Retry button, or the list of stories with the More Stories button.
\<close>

datatype view = LoadingView | ErrorView string | ListView "json list"

definition main_view :: "feed_state \<Rightarrow> view" where
  "main_view st =
     (if loading st \<and> \<not> refreshing st then LoadingView
      else (case error st of
              None \<Rightarrow> ListView (stories st)
            | Some e \<Rightarrow> if e \<noteq> [] then ErrorView e else ListView (stories st)))"

text \<open>The stories a view shows.\<close>

fun displayed :: "view \<Rightarrow> json list" where
  "displayed LoadingView = []"
| "displayed (ErrorView e) = []"
| "displayed (ListView xs) = xs"

fun is_ErrorView :: "view \<Rightarrow> bool" where
  "is_ErrorView (ErrorView e) = True"
| "is_ErrorView LoadingView = False"
| "is_ErrorView (ListView xs) = False"

fun is_ListView :: "view \<Rightarrow> bool" where
  "is_ListView (ListView xs) = True"
| "is_ListView LoadingView = False"
| "is_ListView (ErrorView e) = False"

text \<open>The \<open>disabled\<close> attribute of the Refresh button (line 98).\<close>

definition refresh_disabled :: "feed_state \<Rightarrow> bool" where
  "refresh_disabled st = (loading st \<or> refreshing st)"

section \<open>The component and its events\<close>

text \<open>
  The component between its events. Besides its props and the feed state it holds what
  the host keeps for it: the calls of \<open>fetchStories\<close> that have begun and not settled
  (each with its \<open>isRefresh\<close> argument), a clock in milliseconds, the interval timers
  that are registered, and the identifier of the interval that the cleanup function
  returned by the last run of the effect will clear (line 59), if it returned one.
  The callback of every interval registered here is \<open>() => fetchStories(true)\<close>
  (line 58).
\<close>

datatype phase = Created | Mounted | Unmounted

record timer =
  timer_id :: nat
  delay :: nat
  due :: nat

record component =
  initialLimit :: int
  autoRefresh :: bool
  phase :: phase
  feed :: feed_state
  inflight :: "bool list"
  clock :: nat
  intervals :: "timer list"
  next_timer :: nat
  cleanup :: "nat option"

text \<open>The component as \<open>HackerNews\<close> creates it (lines 22-26), before its effect runs.\<close>

definition HackerNews :: "int \<Rightarrow> bool \<Rightarrow> component" where
  "HackerNews lim auto =
     \<lparr>initialLimit = lim, autoRefresh = auto, phase = Created, feed = initial_feed,
      inflight = [], clock = 0, intervals = [], next_timer = 0, cleanup = None\<rparr>"

text \<open>A call of \<open>fetchStories\<close> runs its head at once and leaves the rest in flight.\<close>

definition call_fetchStories :: "bool \<Rightarrow> component \<Rightarrow> component" where
  "call_fetchStories isRefresh c =
     c\<lparr>feed := fetchStories_begin isRefresh (feed c), inflight := inflight c @ [isRefresh]\<rparr>"

definition setInterval :: "nat \<Rightarrow> component \<Rightarrow> component" where
  "setInterval ms c =
     c\<lparr>intervals := intervals c @ [\<lparr>timer_id = next_timer c, delay = ms, due = clock c + ms\<rparr>],
       next_timer := Suc (next_timer c)\<rparr>"

definition clearInterval :: "nat \<Rightarrow> component \<Rightarrow> component" where
  "clearInterval i c = c\<lparr>intervals := filter (\<lambda>t. timer_id t \<noteq> i) (intervals c)\<rparr>"

text \<open>The effect of lines 54-61 and the cleanup function it returned.\<close>

definition effect :: "component \<Rightarrow> component" where
  "effect c =
     (let c1 = call_fetchStories False c in
      if autoRefresh c1 then (setInterval (60000 * 5) c1)\<lparr>cleanup := Some (next_timer c1)\<rparr>
      else c1\<lparr>cleanup := None\<rparr>)"

definition run_cleanup :: "component \<Rightarrow> component" where
  "run_cleanup c =
     (case cleanup c of None \<Rightarrow> c | Some i \<Rightarrow> (clearInterval i c)\<lparr>cleanup := None\<rparr>)"

text \<open>
  One millisecond passes: every registered interval that is due runs its callback and is
  due again one delay later.
\<close>

definition tick :: "component \<Rightarrow> component" where
  "tick c =
     (let now = Suc (clock c);
          fired = filter (\<lambda>t. due t \<le> now) (intervals c)
      in ((call_fetchStories True ^^ length fired) c)
           \<lparr>clock := now,
            intervals := map (\<lambda>t. if due t \<le> now then t\<lparr>due := due t + delay t\<rparr> else t)
                           (intervals c)\<rparr>)"

fun advance :: "nat \<Rightarrow> component \<Rightarrow> component" where
  "advance 0 c = c"
| "advance (Suc n) c = advance n (tick c)"

text \<open>
  What can happen to the component: React mounts it, re-renders it with another
  \<open>autoRefresh\<close> (the dependency of the effect, line 61) or unmounts it; a millisecond
  passes; the user presses Refresh (line 97), Retry (line 117) or More Stories
  (line 188), each only while it is rendered and enabled; the requests of the \<open>k\<close>-th
  call in flight settle, with the answers \<open>r\<close>.
\<close>

datatype event =
    Mount
  | SetAutoRefresh bool
  | Unmount
  | Tick
  | ClickRefresh
  | ClickRetry
  | ClickMore
  | Settle nat remote

fun step :: "event \<Rightarrow> component \<Rightarrow> component" where
  "step Mount c = (if phase c = Created then effect (c\<lparr>phase := Mounted\<rparr>) else c)"
| "step (SetAutoRefresh b) c =
     (if phase c = Mounted \<and> b \<noteq> autoRefresh c
      then effect ((run_cleanup c)\<lparr>autoRefresh := b\<rparr>) else c)"
| "step Unmount c =
     (if phase c = Mounted then (run_cleanup c)\<lparr>phase := Unmounted\<rparr> else c)"
| "step Tick c = tick c"
| "step ClickRefresh c =
     (if phase c = Mounted \<and> \<not> refresh_disabled (feed c)
      then call_fetchStories True c else c)"
| "step ClickRetry c =
     (if phase c = Mounted \<and> is_ErrorView (main_view (feed c))
      then call_fetchStories False c else c)"
| "step ClickMore c =
     (if phase c = Mounted \<and> is_ListView (main_view (feed c))
      then call_fetchStories False c else c)"
| "step (Settle k r) c =
     (if k < length (inflight c)
      then c\<lparr>feed := fst (fetchStories_settle r (initialLimit c) (feed c)),
             inflight := take k (inflight c) @ drop (Suc k) (inflight c)\<rparr>
      else c)"

fun run :: "event list \<Rightarrow> component \<Rightarrow> component" where
  "run [] c = c"
| "run (e # es) c = run es (step e c)"

section \<open>Invariants of the component\<close>

lemma run_append: "run (es @ es') c = run es' (run es c)"
  by (induction es arbitrary: c) simp_all

lemma feed_calls:
  "feed ((call_fetchStories b ^^ n) c) = (fetchStories_begin b ^^ n) (feed c)"
  by (induction n) (simp_all add: call_fetchStories_def)

lemma inflight_calls:
  "inflight ((call_fetchStories b ^^ n) c) = inflight c @ replicate n b"
  by (induction n) (simp_all add: call_fetchStories_def replicate_append_same)

lemma calls_other_fields:
  "phase ((call_fetchStories b ^^ n) c) = phase c"
  "autoRefresh ((call_fetchStories b ^^ n) c) = autoRefresh c"
  "intervals ((call_fetchStories b ^^ n) c) = intervals c"
  "cleanup ((call_fetchStories b ^^ n) c) = cleanup c"
  "clock ((call_fetchStories b ^^ n) c) = clock c"
  "next_timer ((call_fetchStories b ^^ n) c) = next_timer c"
  "initialLimit ((call_fetchStories b ^^ n) c) = initialLimit c"
  by (induction n) (simp_all add: call_fetchStories_def)

lemma refreshing_begins:
  "refreshing ((fetchStories_begin True ^^ n) st) = (refreshing st \<or> 0 < n)"
  by (induction n) (auto simp add: fetchStories_begin_def)

lemma loading_begins:
  "loading ((fetchStories_begin True ^^ n) st) = loading st"
  by (induction n) (simp_all add: fetchStories_begin_def)

lemma settle_clears:
  "\<not> loading (fst (fetchStories_settle r lim st))"
  "\<not> refreshing (fst (fetchStories_settle r lim st))"
  by (cases "storyResults r lim"; simp add: settle_fulfilled settle_rejected)+

text \<open>\<open>refreshing\<close> is set only while a call with \<open>isRefresh = true\<close> is in flight.\<close>

definition refreshing_inv :: "component \<Rightarrow> bool" where
  "refreshing_inv c = (refreshing (feed c) \<longrightarrow> True \<in> set (inflight c))"

text \<open>
  \<open>loading\<close> is set only before the effect has run or while a call with
  \<open>isRefresh = false\<close> is in flight.\<close>

definition loading_inv :: "component \<Rightarrow> bool" where
  "loading_inv c = (loading (feed c) \<longrightarrow> phase c = Created \<or> False \<in> set (inflight c))"

lemma refreshing_inv_call: "refreshing_inv c \<Longrightarrow> refreshing_inv (call_fetchStories b c)"
  by (auto simp add: refreshing_inv_def call_fetchStories_def fetchStories_begin_def)

lemma refreshing_inv_tick: "refreshing_inv c \<Longrightarrow> refreshing_inv (tick c)"
  by (auto simp add: refreshing_inv_def tick_def Let_def feed_calls inflight_calls
      refreshing_begins)

lemma refreshing_inv_effect: "refreshing_inv c \<Longrightarrow> refreshing_inv (effect c)"
  by (auto simp add: refreshing_inv_def effect_def Let_def call_fetchStories_def
      fetchStories_begin_def setInterval_def)

lemma refreshing_inv_cleanup: "refreshing_inv c \<Longrightarrow> refreshing_inv (run_cleanup c)"
  by (auto simp add: refreshing_inv_def run_cleanup_def clearInterval_def split: option.splits)

lemma refreshing_inv_step: "refreshing_inv c \<Longrightarrow> refreshing_inv (step e c)"
proof (cases e)
  case Mount
  assume "refreshing_inv c"
  then have "refreshing_inv (c\<lparr>phase := Mounted\<rparr>)" by (simp add: refreshing_inv_def)
  with Mount \<open>refreshing_inv c\<close> show ?thesis by (simp add: refreshing_inv_effect)
next
  case (SetAutoRefresh b)
  assume inv: "refreshing_inv c"
  then have "refreshing_inv ((run_cleanup c)\<lparr>autoRefresh := b\<rparr>)"
    using refreshing_inv_cleanup [of c] by (simp add: refreshing_inv_def)
  then have "refreshing_inv (effect ((run_cleanup c)\<lparr>autoRefresh := b\<rparr>))"
    by (rule refreshing_inv_effect)
  with SetAutoRefresh inv show ?thesis by auto
next
  case Unmount
  assume inv: "refreshing_inv c"
  then have "refreshing_inv ((run_cleanup c)\<lparr>phase := Unmounted\<rparr>)"
    using refreshing_inv_cleanup [of c] by (simp add: refreshing_inv_def)
  with Unmount inv show ?thesis by simp
next
  case Tick
  assume "refreshing_inv c"
  with Tick show ?thesis by (simp add: refreshing_inv_tick)
next
  case ClickRefresh
  assume "refreshing_inv c"
  with ClickRefresh show ?thesis by (simp add: refreshing_inv_call)
next
  case ClickRetry
  assume "refreshing_inv c"
  with ClickRetry show ?thesis by (simp add: refreshing_inv_call)
next
  case ClickMore
  assume "refreshing_inv c"
  with ClickMore show ?thesis by (simp add: refreshing_inv_call)
next
  case (Settle k r)
  assume "refreshing_inv c"
  with Settle show ?thesis by (simp add: refreshing_inv_def settle_clears)
qed

lemma refreshing_inv_run: "refreshing_inv c \<Longrightarrow> refreshing_inv (run es c)"
  by (induction es arbitrary: c) (simp_all add: refreshing_inv_step)

lemma refreshing_inv_init: "refreshing_inv (HackerNews lim auto)"
  by (simp add: refreshing_inv_def HackerNews_def initial_feed_def)

lemma loading_inv_call: "loading_inv c \<Longrightarrow> phase c \<noteq> Created \<Longrightarrow> loading_inv (call_fetchStories b c)"
  by (auto simp add: loading_inv_def call_fetchStories_def fetchStories_begin_def)

lemma loading_inv_call_False: "loading_inv (call_fetchStories False c)"
  by (simp add: loading_inv_def call_fetchStories_def)

lemma loading_inv_tick: "loading_inv c \<Longrightarrow> loading_inv (tick c)"
  by (auto simp add: loading_inv_def tick_def Let_def feed_calls inflight_calls
      loading_begins calls_other_fields)

lemma loading_inv_effect: "loading_inv (effect c)"
  by (simp add: loading_inv_def effect_def Let_def call_fetchStories_def setInterval_def)

lemma loading_inv_step: "loading_inv c \<Longrightarrow> loading_inv (step e c)"
proof (cases e)
  case Unmount
  assume inv: "loading_inv c"
  have "phase c = Mounted \<Longrightarrow> loading_inv ((run_cleanup c)\<lparr>phase := Unmounted\<rparr>)"
    using inv by (auto simp add: loading_inv_def run_cleanup_def clearInterval_def
        split: option.splits)
  with Unmount inv show ?thesis by simp
next
  case Tick
  assume "loading_inv c"
  with Tick show ?thesis by (simp add: loading_inv_tick)
next
  case ClickRefresh
  assume "loading_inv c"
  with ClickRefresh show ?thesis by (simp add: loading_inv_call)
next
  case (Settle k r)
  assume "loading_inv c"
  with Settle show ?thesis by (simp add: loading_inv_def settle_clears)
qed (simp_all add: loading_inv_effect loading_inv_call_False)

lemma loading_inv_run: "loading_inv c \<Longrightarrow> loading_inv (run es c)"
  by (induction es arbitrary: c) (simp_all add: loading_inv_step)

lemma loading_inv_init: "loading_inv (HackerNews lim auto)"
  by (simp add: loading_inv_def HackerNews_def)

text \<open>
  The registered intervals: exactly one, the one the cleanup function will clear, with a
  delay of 300000 ms and due within the next 300000 ms, while the component is mounted
  with \<open>autoRefresh\<close>; none otherwise.
\<close>

definition timers_inv :: "component \<Rightarrow> bool" where
  "timers_inv c =
     (if phase c = Mounted \<and> autoRefresh c
      then \<exists>t. intervals c = [t] \<and> cleanup c = Some (timer_id t) \<and> delay t = 300000
             \<and> clock c < due t \<and> due t \<le> clock c + 300000
      else intervals c = [] \<and> cleanup c = None)"

lemma timers_inv_init: "timers_inv (HackerNews lim auto)"
  by (simp add: timers_inv_def HackerNews_def)

lemma effect_fields:
  "phase (effect c) = phase c" "autoRefresh (effect c) = autoRefresh c"
  by (simp_all add: effect_def Let_def call_fetchStories_def setInterval_def)

lemma timers_inv_effect:
  "intervals c = [] \<Longrightarrow> phase c = Mounted \<Longrightarrow> timers_inv (effect c)"
  by (simp add: timers_inv_def effect_def Let_def call_fetchStories_def setInterval_def)

lemma run_cleanup_fields:
  "phase (run_cleanup c) = phase c" "autoRefresh (run_cleanup c) = autoRefresh c"
  "cleanup (run_cleanup c) = None"
  by (simp_all add: run_cleanup_def clearInterval_def split: option.splits)

lemma run_cleanup_clears: "timers_inv c \<Longrightarrow> intervals (run_cleanup c) = []"
  by (auto simp add: timers_inv_def run_cleanup_def clearInterval_def split: if_splits)

lemma timers_inv_tick: "timers_inv c \<Longrightarrow> timers_inv (tick c)"
  by (auto simp add: timers_inv_def tick_def Let_def calls_other_fields split: if_splits)

lemma timers_inv_call: "timers_inv c \<Longrightarrow> timers_inv (call_fetchStories b c)"
  by (simp add: timers_inv_def call_fetchStories_def)

lemma timers_inv_step: "timers_inv c \<Longrightarrow> timers_inv (step e c)"
proof (cases e)
  case Mount
  assume inv: "timers_inv c"
  have "phase c = Created \<Longrightarrow> timers_inv (effect (c\<lparr>phase := Mounted\<rparr>))"
    using inv by (intro timers_inv_effect) (simp_all add: timers_inv_def)
  with Mount inv show ?thesis by simp
next
  case (SetAutoRefresh b)
  assume inv: "timers_inv c"
  have "phase c = Mounted \<Longrightarrow> timers_inv (effect ((run_cleanup c)\<lparr>autoRefresh := b\<rparr>))"
    using inv by (intro timers_inv_effect) (simp_all add: run_cleanup_clears run_cleanup_fields)
  with SetAutoRefresh inv show ?thesis by auto
next
  case Unmount
  assume inv: "timers_inv c"
  then have "timers_inv ((run_cleanup c)\<lparr>phase := Unmounted\<rparr>)"
    by (simp add: timers_inv_def run_cleanup_clears [OF inv] run_cleanup_fields)
  with Unmount inv show ?thesis by simp
next
  case Tick
  assume "timers_inv c"
  with Tick show ?thesis by (simp add: timers_inv_tick)
next
  case ClickRefresh
  assume "timers_inv c"
  with ClickRefresh show ?thesis by (simp add: timers_inv_call)
next
  case ClickRetry
  assume "timers_inv c"
  with ClickRetry show ?thesis by (simp add: timers_inv_call)
next
  case ClickMore
  assume "timers_inv c"
  with ClickMore show ?thesis by (simp add: timers_inv_call)
next
  case (Settle k r)
  assume "timers_inv c"
  with Settle show ?thesis by (simp add: timers_inv_def)
qed

lemma timers_inv_run: "timers_inv c \<Longrightarrow> timers_inv (run es c)"
  by (induction es arbitrary: c) (simp_all add: timers_inv_step)

lemma tick_no_intervals: "intervals c = [] \<Longrightarrow> tick c = c\<lparr>clock := Suc (clock c)\<rparr>"
  by (simp add: tick_def)

lemma advance_no_intervals: "intervals c = [] \<Longrightarrow> advance n c = c\<lparr>clock := clock c + n\<rparr>"
  by (induction n arbitrary: c) (simp_all add: tick_no_intervals)

text \<open>An unmounted component stays unmounted, registers no interval and begins no call.\<close>

lemma unmounted_step:
  assumes "phase c = Unmounted" and "intervals c = []"
  shows "phase (step e c) = Unmounted \<and> intervals (step e c) = []
         \<and> length (inflight (step e c)) \<le> length (inflight c)"
  using assms by (cases e) (auto simp add: tick_no_intervals)

lemma unmounted_run:
  assumes "phase c = Unmounted" and "intervals c = []"
  shows "phase (run es c) = Unmounted \<and> intervals (run es c) = []
         \<and> length (inflight (run es c)) \<le> length (inflight c)"
  using assms
proof (induction es arbitrary: c)
  case Nil
  then show ?case by simp
next
  case (Cons e es)
  from unmounted_step [OF Cons.prems, of e]
  have a: "phase (step e c) = Unmounted" and b: "intervals (step e c) = []"
    and c: "length (inflight (step e c)) \<le> length (inflight c)"
    by simp_all
  from Cons.IH [OF a b] c show ?case by simp
qed

text \<open>With one interval registered, the calls that \<open>n\<close> milliseconds begin.\<close>

lemma advance_one_interval:
  assumes "intervals c = [t]" and "0 < delay t" and "clock c < due t"
    and "due t \<le> clock c + delay t"
  shows "inflight (advance n c) =
           inflight c @ replicate ((n + (clock c + delay t - due t)) div delay t) True"
  using assms
proof (induction n arbitrary: c t)
  case 0
  then show ?case by simp
next
  case (Suc n)
  show ?case
  proof (cases "due t \<le> Suc (clock c)")
    case True
    with Suc.prems have due: "due t = Suc (clock c)" by simp
    let ?t = "t\<lparr>due := due t + delay t\<rparr>"
    from Suc.prems True have tk: "intervals (tick c) = [?t]" "clock (tick c) = Suc (clock c)"
      "inflight (tick c) = inflight c @ [True]"
      by (simp_all add: tick_def Let_def call_fetchStories_def)
    from Suc.prems due
    have "inflight (advance n (tick c)) =
            inflight (tick c) @
              replicate ((n + (clock (tick c) + delay ?t - due ?t)) div delay ?t) True"
      by (intro Suc.IH [OF tk(1)]) (simp_all add: tk)
    also have "\<dots> = inflight c @ replicate (Suc (n div delay t)) True"
      by (simp add: tk due)
    also have "Suc (n div delay t) = (Suc n + (clock c + delay t - due t)) div delay t"
      using Suc.prems(2) by (simp add: due div_add_self2)
    finally show ?thesis by simp
  next
    case False
    from Suc.prems False have tk: "intervals (tick c) = [t]" "clock (tick c) = Suc (clock c)"
      "inflight (tick c) = inflight c"
      by (simp_all add: tick_def Let_def)
    from Suc.prems False
    have "inflight (advance n (tick c)) =
            inflight (tick c) @
              replicate ((n + (clock (tick c) + delay t - due t)) div delay t) True"
      by (intro Suc.IH [OF tk(1)]) (simp_all add: tk)
    also have "n + (clock (tick c) + delay t - due t) = Suc n + (clock c + delay t - due t)"
      using Suc.prems False by (simp add: tk)
    finally show ?thesis by (simp add: tk)
  qed
qed

lemma mounted_auto:
  "step Mount (HackerNews lim True) =
     \<lparr>initialLimit = lim, autoRefresh = True, phase = Mounted,
      feed = initial_feed, inflight = [False], clock = 0,
      intervals = [\<lparr>timer_id = 0, delay = 300000, due = 300000\<rparr>], next_timer = 1,
      cleanup = Some 0\<rparr>"
  by (simp add: HackerNews_def effect_def call_fetchStories_def setInterval_def
      fetchStories_begin_def initial_feed_def)

section \<open>The flags\<close>

lemma first_load_done:
  "run [Mount, Settle 0 deleted_20] (HackerNews 3 False) =
     \<lparr>initialLimit = 3, autoRefresh = False, phase = Mounted,
      feed = \<lparr>stories = [story 10, story 30], loading = False, refreshing = False,
               error = None\<rparr>,
      inflight = [], clock = 0, intervals = [], next_timer = 0, cleanup = None\<rparr>"
  by (simp add: HackerNews_def effect_def call_fetchStories_def fetchStories_begin_def
      initial_feed_def settle_fulfilled [OF storyResults_deleted_20] story_truthy)

lemma storyResults_offline: "storyResults offline lim = Inl TypeError"
  by (simp add: storyResults_def offline_def)

text \<open>
  Claim C5. The rest of \<open>fetchStories\<close> leaves \<open>loading\<close> and \<open>refreshing\<close> false
  on every path, so both are false when a call in flight settles, whatever the answers.
  \<open>refreshing\<close> is false when the component is created, a call with
  \<open>isRefresh = false\<close> leaves it as it is, a call with \<open>isRefresh = true\<close> sets it,
  and in every state the component reaches \<open>refreshing\<close> is set only while a call with
  \<open>isRefresh = true\<close> is in flight.
\<close>

theorem flags_cleared_refreshing_scoped:
  "\<not> loading (fst (fetchStories_settle r lim st))
   \<and> \<not> refreshing (fst (fetchStories_settle r lim st))
   \<and> (k < length (inflight c) \<longrightarrow>
        \<not> loading (feed (step (Settle k r) c)) \<and> \<not> refreshing (feed (step (Settle k r) c)))
   \<and> \<not> refreshing (feed (HackerNews lim auto))
   \<and> refreshing (fetchStories_begin False st) = refreshing st
   \<and> refreshing (fetchStories_begin True st)
   \<and> (refreshing (feed (run es (HackerNews lim auto))) \<longrightarrow>
        True \<in> set (inflight (run es (HackerNews lim auto))))"
proof -
  have "refreshing_inv (run es (HackerNews lim auto))"
    by (rule refreshing_inv_run [OF refreshing_inv_init])
  then have "refreshing (feed (run es (HackerNews lim auto))) \<longrightarrow>
        True \<in> set (inflight (run es (HackerNews lim auto)))"
    by (simp add: refreshing_inv_def)
  moreover have "\<not> refreshing (feed (HackerNews lim auto))"
    by (simp add: HackerNews_def initial_feed_def)
  moreover have "refreshing (fetchStories_begin False st) = refreshing st"
    "refreshing (fetchStories_begin True st)"
    by (simp_all add: fetchStories_begin_def)
  ultimately show ?thesis by (simp add: settle_clears)
qed

theorem flags_cleared_refreshing_scoped_witness:
  "0 < length (inflight (run [Mount, Settle 0 deleted_20, ClickRefresh] (HackerNews 3 False)))
   \<and> refreshing (feed (run [Mount, Settle 0 deleted_20, ClickRefresh] (HackerNews 3 False)))
   \<and> True \<in> set (inflight (run [Mount, Settle 0 deleted_20, ClickRefresh] (HackerNews 3 False)))
   \<and> \<not> refreshing (feed (step (Settle 0 offline)
          (run [Mount, Settle 0 deleted_20, ClickRefresh] (HackerNews 3 False))))
   \<and> \<not> loading (feed (step (Settle 0 offline)
          (run [Mount, Settle 0 deleted_20, ClickRefresh] (HackerNews 3 False))))"
proof -
  have run3: "run [Mount, Settle 0 deleted_20, ClickRefresh] (HackerNews 3 False) =
      step ClickRefresh (run [Mount, Settle 0 deleted_20] (HackerNews 3 False))"
    by (simp only: run.simps)
  have st: "refreshing (feed (run [Mount, Settle 0 deleted_20, ClickRefresh] (HackerNews 3 False)))"
    "0 < length (inflight (run [Mount, Settle 0 deleted_20, ClickRefresh] (HackerNews 3 False)))"
    unfolding run3 first_load_done
    by (simp_all add: refresh_disabled_def call_fetchStories_def fetchStories_begin_def)
  from st flags_cleared_refreshing_scoped
    [where r = offline and lim = 3 and k = 0 and auto = False
      and c = "run [Mount, Settle 0 deleted_20, ClickRefresh] (HackerNews 3 False)"
      and es = "[Mount, Settle 0 deleted_20, ClickRefresh]"]
  show ?thesis by simp
qed

text \<open>
  Claim C7 as stated fails: after the first fetch cycle has completed, More Stories
  calls \<open>fetchStories()\<close>, which sets \<open>loading\<close> again.
\<close>

theorem loading_set_again:
  "\<not> loading (feed (run [Mount, Settle 0 deleted_20] (HackerNews 3 False)))
   \<and> loading (feed (run [Mount, Settle 0 deleted_20, ClickMore] (HackerNews 3 False)))"
proof -
  have unroll: "run [Mount, Settle 0 deleted_20, ClickMore] (HackerNews 3 False) =
      step ClickMore (run [Mount, Settle 0 deleted_20] (HackerNews 3 False))"
    by (simp only: run.simps)
  show ?thesis
    unfolding unroll first_load_done
    by (simp add: main_view_def call_fetchStories_def fetchStories_begin_def)
qed

text \<open>The events that call \<open>fetchStories\<close> with \<open>isRefresh = false\<close>.\<close>

fun calls_without_refresh :: "event \<Rightarrow> bool" where
  "calls_without_refresh Mount = True"
| "calls_without_refresh (SetAutoRefresh b) = True"
| "calls_without_refresh ClickRetry = True"
| "calls_without_refresh ClickMore = True"
| "calls_without_refresh Unmount = False"
| "calls_without_refresh Tick = False"
| "calls_without_refresh ClickRefresh = False"
| "calls_without_refresh (Settle k r) = False"

text \<open>
  Claim C7, amended. \<open>loading\<close> is false when a fetch cycle completes, whether it
  succeeded or failed, and stays false until the next call with \<open>isRefresh = false\<close>
  (the effect, Retry or More Stories), which sets it again. In every state the component
  reaches, \<open>loading\<close> is set only before the effect has run or while a call with
  \<open>isRefresh = false\<close> is in flight.
\<close>

theorem loading_scoped:
  "\<not> loading (fst (fetchStories_settle r lim st))
   \<and> (k < length (inflight c) \<longrightarrow> \<not> loading (feed (step (Settle k r) c)))
   \<and> (\<not> loading (feed c') \<and> \<not> calls_without_refresh e \<longrightarrow> \<not> loading (feed (step e c')))
   \<and> loading (fetchStories_begin False st)
   \<and> (loading (feed (run es (HackerNews lim auto))) \<longrightarrow>
        phase (run es (HackerNews lim auto)) = Created
        \<or> False \<in> set (inflight (run es (HackerNews lim auto))))"
proof -
  have "loading_inv (run es (HackerNews lim auto))"
    by (rule loading_inv_run [OF loading_inv_init])
  then have a: "loading (feed (run es (HackerNews lim auto))) \<longrightarrow>
        phase (run es (HackerNews lim auto)) = Created
        \<or> False \<in> set (inflight (run es (HackerNews lim auto)))"
    by (simp add: loading_inv_def)
  have b: "\<not> loading (feed c') \<and> \<not> calls_without_refresh e \<longrightarrow> \<not> loading (feed (step e c'))"
    by (cases e)
      (auto simp add: settle_clears run_cleanup_def clearInterval_def tick_def Let_def
        feed_calls loading_begins call_fetchStories_def fetchStories_begin_def
        split: option.splits)
  have c: "loading (fetchStories_begin False st)"
    by (simp add: fetchStories_begin_def)
  from a b c show ?thesis by (simp add: settle_clears)
qed

theorem loading_scoped_witness:
  "0 < length (inflight (run [Mount, Settle 0 deleted_20, ClickMore] (HackerNews 3 False)))
   \<and> loading (feed (run [Mount, Settle 0 deleted_20, ClickMore] (HackerNews 3 False)))
   \<and> False \<in> set (inflight (run [Mount, Settle 0 deleted_20, ClickMore] (HackerNews 3 False)))
   \<and> \<not> loading (feed (step (Settle 0 offline)
          (run [Mount, Settle 0 deleted_20, ClickMore] (HackerNews 3 False))))
   \<and> \<not> loading (feed (run [Mount, Settle 0 deleted_20] (HackerNews 3 False)))
   \<and> \<not> calls_without_refresh ClickRefresh
   \<and> \<not> loading (feed (step ClickRefresh (run [Mount, Settle 0 deleted_20] (HackerNews 3 False))))"
proof -
  have run3: "run [Mount, Settle 0 deleted_20, ClickMore] (HackerNews 3 False) =
      step ClickMore (run [Mount, Settle 0 deleted_20] (HackerNews 3 False))"
    by (simp only: run.simps)
  have st: "loading (feed (run [Mount, Settle 0 deleted_20, ClickMore] (HackerNews 3 False)))"
    "0 < length (inflight (run [Mount, Settle 0 deleted_20, ClickMore] (HackerNews 3 False)))"
    "phase (run [Mount, Settle 0 deleted_20, ClickMore] (HackerNews 3 False)) \<noteq> Created"
    unfolding run3 first_load_done
    by (simp_all add: main_view_def call_fetchStories_def fetchStories_begin_def)
  have idle: "\<not> loading (feed (run [Mount, Settle 0 deleted_20] (HackerNews 3 False)))"
    unfolding first_load_done by simp
  from st idle
    loading_scoped [where r = offline and lim = 3 and k = 0 and auto = False
      and c = "run [Mount, Settle 0 deleted_20, ClickMore] (HackerNews 3 False)"
      and c' = "run [Mount, Settle 0 deleted_20] (HackerNews 3 False)" and e = ClickRefresh
      and es = "[Mount, Settle 0 deleted_20, ClickMore]"]
  show ?thesis by simp
qed

section \<open>The error view\<close>

lemma failure_message_nonempty: "failure_message \<noteq> []"
  by (simp add: failure_message_def)

text \<open>
  Claim C8 as stated fails: after a successful first load and a refresh whose index
  fetch fails, \<open>stories\<close> still holds the two stories, but the view is the error text
  with the Retry button and shows no story.
\<close>

theorem error_view_hides_stories:
  "stories (feed (run [Mount, Settle 0 deleted_20, ClickRefresh, Settle 0 offline]
             (HackerNews 3 False))) = [story 10, story 30]
   \<and> main_view (feed (run [Mount, Settle 0 deleted_20, ClickRefresh, Settle 0 offline]
             (HackerNews 3 False))) = ErrorView failure_message
   \<and> displayed (main_view (feed (run [Mount, Settle 0 deleted_20, ClickRefresh, Settle 0 offline]
             (HackerNews 3 False)))) \<noteq> [story 10, story 30]"
proof -
  have unroll: "run [Mount, Settle 0 deleted_20, ClickRefresh, Settle 0 offline] (HackerNews 3 False) =
      step (Settle 0 offline) (step ClickRefresh
        (run [Mount, Settle 0 deleted_20] (HackerNews 3 False)))"
    by (simp only: run.simps)
  show ?thesis
    unfolding unroll first_load_done
    by (simp add: refresh_disabled_def call_fetchStories_def fetchStories_begin_def
        settle_rejected [OF storyResults_offline] main_view_def failure_message_nonempty)
qed

text \<open>
  \<open>error\<close> is written in two places only: every call clears it (line 32) and the catch
  block sets it to the fixed message (line 46), together with the \<open>finally\<close> block that
  clears both flags. So while \<open>error\<close> is set, neither flag is.
\<close>

definition error_inv :: "component \<Rightarrow> bool" where
  "error_inv c =
     (error (feed c) \<noteq> None \<longrightarrow>
        error (feed c) = Some failure_message \<and> \<not> loading (feed c) \<and> \<not> refreshing (feed c))"

lemma error_begins:
  "error ((fetchStories_begin b ^^ n) st) = (if n = 0 then error st else None)"
  by (induction n) (simp_all add: fetchStories_begin_def)

lemma error_inv_call: "error_inv (call_fetchStories b c)"
  by (simp add: error_inv_def call_fetchStories_def fetchStories_begin_def)

lemma error_inv_effect: "error_inv (effect c)"
  by (simp add: error_inv_def effect_def Let_def call_fetchStories_def setInterval_def
      fetchStories_begin_def)

lemma error_inv_tick: "error_inv c \<Longrightarrow> error_inv (tick c)"
  by (cases "filter (\<lambda>t. due t \<le> Suc (clock c)) (intervals c) = []")
    (simp_all add: error_inv_def tick_def Let_def feed_calls error_begins)

lemma error_inv_settle:
  "error_inv c \<Longrightarrow> error_inv (step (Settle k r) c)"
  by (cases "storyResults r (initialLimit c)")
    (auto simp add: error_inv_def settle_fulfilled settle_rejected)

lemma error_inv_step: "error_inv c \<Longrightarrow> error_inv (step e c)"
proof (cases e)
  case Unmount
  assume "error_inv c"
  then have "error_inv ((run_cleanup c)\<lparr>phase := Unmounted\<rparr>)"
    by (auto simp add: error_inv_def run_cleanup_def clearInterval_def split: option.splits)
  with Unmount \<open>error_inv c\<close> show ?thesis by simp
next
  case Tick
  assume "error_inv c"
  with Tick show ?thesis by (simp add: error_inv_tick)
next
  case (Settle k r)
  assume "error_inv c"
  with Settle show ?thesis by (simp only: error_inv_settle)
qed (simp_all add: error_inv_effect error_inv_call)

lemma error_inv_run: "error_inv c \<Longrightarrow> error_inv (run es c)"
  by (induction es arbitrary: c) (simp_all add: error_inv_step)

lemma error_inv_init: "error_inv (HackerNews lim auto)"
  by (simp add: error_inv_def HackerNews_def initial_feed_def)

lemma error_inv_view:
  assumes "error_inv c" and "error (feed c) \<noteq> None"
  shows "main_view (feed c) = ErrorView failure_message"
  using assms by (auto simp add: error_inv_def main_view_def failure_message_nonempty)

text \<open>The index is \<open>[7]\<close> and item 7 exists.\<close>

definition only_7 :: remote where
  "only_7 = \<lparr>topstories = ok (JArr [JNum 7]), item = (\<lambda>id. ok (story 7))\<rparr>"

lemma storyResults_only_7: "storyResults only_7 3 = Inr [story 7]"
  by (simp add: storyResults_def only_7_def ok_def slice0_def)

lemma refresh_pending:
  "run [Mount, Settle 0 deleted_20, ClickRefresh] (HackerNews 3 False) =
     \<lparr>initialLimit = 3, autoRefresh = False, phase = Mounted,
      feed = \<lparr>stories = [story 10, story 30], loading = False, refreshing = True,
               error = None\<rparr>,
      inflight = [True], clock = 0, intervals = [], next_timer = 0, cleanup = None\<rparr>"
proof -
  have unroll: "run [Mount, Settle 0 deleted_20, ClickRefresh] (HackerNews 3 False) =
      step ClickRefresh (run [Mount, Settle 0 deleted_20] (HackerNews 3 False))"
    by (simp only: run.simps)
  show ?thesis
    unfolding unroll first_load_done
    by (simp add: refresh_disabled_def call_fetchStories_def fetchStories_begin_def)
qed

lemma refresh_failed:
  "run [Mount, Settle 0 deleted_20, ClickRefresh, Settle 0 offline] (HackerNews 3 False) =
     \<lparr>initialLimit = 3, autoRefresh = False, phase = Mounted,
      feed = \<lparr>stories = [story 10, story 30], loading = False, refreshing = False,
               error = Some failure_message\<rparr>,
      inflight = [], clock = 0, intervals = [], next_timer = 0, cleanup = None\<rparr>"
proof -
  have unroll: "run [Mount, Settle 0 deleted_20, ClickRefresh, Settle 0 offline] (HackerNews 3 False) =
      step (Settle 0 offline) (run [Mount, Settle 0 deleted_20, ClickRefresh] (HackerNews 3 False))"
    by (simp only: run.simps)
  show ?thesis
    unfolding unroll refresh_pending
    by (simp add: settle_rejected [OF storyResults_offline])
qed

lemma overlap_pending:
  "run [Mount, Settle 0 deleted_20, ClickRefresh, ClickMore] (HackerNews 3 False) =
     \<lparr>initialLimit = 3, autoRefresh = False, phase = Mounted,
      feed = \<lparr>stories = [story 10, story 30], loading = True, refreshing = True,
               error = None\<rparr>,
      inflight = [True, False], clock = 0, intervals = [], next_timer = 0, cleanup = None\<rparr>"
proof -
  have unroll: "run [Mount, Settle 0 deleted_20, ClickRefresh, ClickMore] (HackerNews 3 False) =
      step ClickMore (run [Mount, Settle 0 deleted_20, ClickRefresh] (HackerNews 3 False))"
    by (simp only: run.simps)
  show ?thesis
    unfolding unroll refresh_pending
    by (simp add: main_view_def call_fetchStories_def fetchStories_begin_def)
qed

lemma overlap_failed:
  "run [Mount, Settle 0 deleted_20, ClickRefresh, ClickMore, Settle 0 offline]
       (HackerNews 3 False) =
     \<lparr>initialLimit = 3, autoRefresh = False, phase = Mounted,
      feed = \<lparr>stories = [story 10, story 30], loading = False, refreshing = False,
               error = Some failure_message\<rparr>,
      inflight = [False], clock = 0, intervals = [], next_timer = 0, cleanup = None\<rparr>"
proof -
  have unroll: "run [Mount, Settle 0 deleted_20, ClickRefresh, ClickMore, Settle 0 offline]
       (HackerNews 3 False) =
      step (Settle 0 offline)
        (run [Mount, Settle 0 deleted_20, ClickRefresh, ClickMore] (HackerNews 3 False))"
    by (simp only: run.simps)
  show ?thesis
    unfolding unroll overlap_pending
    by (simp add: settle_rejected [OF storyResults_offline])
qed

lemma overlap_replaces_stories:
  "feed (run [Mount, Settle 0 deleted_20, ClickRefresh, ClickMore, Settle 0 offline,
          Settle 0 only_7] (HackerNews 3 False)) =
     \<lparr>stories = [story 7], loading = False, refreshing = False,
      error = Some failure_message\<rparr>"
proof -
  have unroll: "run [Mount, Settle 0 deleted_20, ClickRefresh, ClickMore, Settle 0 offline,
          Settle 0 only_7] (HackerNews 3 False) =
      step (Settle 0 only_7)
        (run [Mount, Settle 0 deleted_20, ClickRefresh, ClickMore, Settle 0 offline]
          (HackerNews 3 False))"
    by (simp only: run.simps)
  show ?thesis
    unfolding unroll overlap_failed
    by (simp add: settle_fulfilled [OF storyResults_only_7] story_truthy)
qed

text \<open>
  Claim C8, amended. In the Error phase, that is in every state the component reaches
  with \<open>error\<close> set, no story is displayed: the view is the error text with the Retry
  button, which calls \<open>fetchStories()\<close>, in place of the list. The failed attempt does
  not blank the \<open>stories\<close> state: the call that fails leaves \<open>stories\<close> as it was
  when it settled, so a load that runs alone keeps the content from before the attempt;
  a call that overlaps it and succeeds can still replace \<open>stories\<close> while \<open>error\<close>
  stays set, as in the run with Refresh and More Stories below.
\<close>

theorem error_phase_keeps_but_hides_stories:
  "(error (feed (run es (HackerNews lim auto))) \<noteq> None \<longrightarrow>
      error (feed (run es (HackerNews lim auto))) = Some failure_message
      \<and> main_view (feed (run es (HackerNews lim auto))) = ErrorView failure_message
      \<and> displayed (main_view (feed (run es (HackerNews lim auto)))) = []
      \<and> (phase (run es (HackerNews lim auto)) = Mounted \<longrightarrow>
           step ClickRetry (run es (HackerNews lim auto)) =
             call_fetchStories False (run es (HackerNews lim auto))))
   \<and> (k < length (inflight c) \<and> storyResults r (initialLimit c) = Inl e \<longrightarrow>
        stories (feed (step (Settle k r) c)) = stories (feed c)
        \<and> error (feed (step (Settle k r) c)) = Some failure_message
        \<and> main_view (feed (step (Settle k r) c)) = ErrorView failure_message)
   \<and> (error (fst (fetchStories r' lim' isRefresh st)) \<noteq> None \<longrightarrow>
        stories (fst (fetchStories r' lim' isRefresh st)) = stories st
        \<and> main_view (fst (fetchStories r' lim' isRefresh st)) = ErrorView failure_message
        \<and> displayed (main_view (fst (fetchStories r' lim' isRefresh st))) = [])
   \<and> stories (feed (run [Mount, Settle 0 deleted_20, ClickRefresh, ClickMore, Settle 0 offline,
         Settle 0 only_7] (HackerNews 3 False))) = [story 7]
   \<and> error (feed (run [Mount, Settle 0 deleted_20, ClickRefresh, ClickMore, Settle 0 offline,
         Settle 0 only_7] (HackerNews 3 False))) = Some failure_message"
proof -
  let ?c = "run es (HackerNews lim auto)"
  have inv: "error_inv ?c"
    by (rule error_inv_run [OF error_inv_init])
  have a: "error (feed ?c) \<noteq> None \<longrightarrow>
      error (feed ?c) = Some failure_message
      \<and> main_view (feed ?c) = ErrorView failure_message
      \<and> displayed (main_view (feed ?c)) = []
      \<and> (phase ?c = Mounted \<longrightarrow> step ClickRetry ?c = call_fetchStories False ?c)"
  proof
    assume set: "error (feed ?c) \<noteq> None"
    from error_inv_view [OF inv set] have v: "main_view (feed ?c) = ErrorView failure_message" .
    from inv set have m: "error (feed ?c) = Some failure_message"
      by (simp add: error_inv_def)
    from v m show "error (feed ?c) = Some failure_message
      \<and> main_view (feed ?c) = ErrorView failure_message
      \<and> displayed (main_view (feed ?c)) = []
      \<and> (phase ?c = Mounted \<longrightarrow> step ClickRetry ?c = call_fetchStories False ?c)"
      by simp
  qed
  have b: "k < length (inflight c) \<and> storyResults r (initialLimit c) = Inl e \<longrightarrow>
        stories (feed (step (Settle k r) c)) = stories (feed c)
        \<and> error (feed (step (Settle k r) c)) = Some failure_message
        \<and> main_view (feed (step (Settle k r) c)) = ErrorView failure_message"
    by (simp add: settle_rejected main_view_def failure_message_nonempty)
  have c: "error (fst (fetchStories r' lim' isRefresh st)) \<noteq> None \<longrightarrow>
        stories (fst (fetchStories r' lim' isRefresh st)) = stories st
        \<and> main_view (fst (fetchStories r' lim' isRefresh st)) = ErrorView failure_message
        \<and> displayed (main_view (fst (fetchStories r' lim' isRefresh st))) = []"
    by (cases "storyResults r' lim'")
      (simp_all add: fetchStories_rejected fetchStories_fulfilled main_view_def
        failure_message_nonempty)
  have d: "stories (feed (run [Mount, Settle 0 deleted_20, ClickRefresh, ClickMore,
         Settle 0 offline, Settle 0 only_7] (HackerNews 3 False))) = [story 7]"
    "error (feed (run [Mount, Settle 0 deleted_20, ClickRefresh, ClickMore, Settle 0 offline,
         Settle 0 only_7] (HackerNews 3 False))) = Some failure_message"
    by (simp_all only: overlap_replaces_stories feed_state.simps)
  from a b c d show ?thesis
    by - (intro conjI, assumption+)
qed

theorem error_phase_keeps_but_hides_stories_witness:
  "error (feed (run [Mount, Settle 0 deleted_20, ClickRefresh, Settle 0 offline]
       (HackerNews 3 False))) \<noteq> None
   \<and> phase (run [Mount, Settle 0 deleted_20, ClickRefresh, Settle 0 offline]
       (HackerNews 3 False)) = Mounted
   \<and> stories (feed (run [Mount, Settle 0 deleted_20, ClickRefresh, Settle 0 offline]
       (HackerNews 3 False))) = [story 10, story 30]
   \<and> main_view (feed (run [Mount, Settle 0 deleted_20, ClickRefresh, Settle 0 offline]
       (HackerNews 3 False))) = ErrorView failure_message
   \<and> displayed (main_view (feed (run [Mount, Settle 0 deleted_20, ClickRefresh, Settle 0 offline]
       (HackerNews 3 False)))) = []
   \<and> inflight (step ClickRetry (run [Mount, Settle 0 deleted_20, ClickRefresh, Settle 0 offline]
       (HackerNews 3 False))) = [False]
   \<and> 0 < length (inflight (run [Mount, Settle 0 deleted_20, ClickRefresh] (HackerNews 3 False)))
   \<and> storyResults offline
        (initialLimit (run [Mount, Settle 0 deleted_20, ClickRefresh] (HackerNews 3 False))) =
       Inl TypeError
   \<and> stories (feed (step (Settle 0 offline)
        (run [Mount, Settle 0 deleted_20, ClickRefresh] (HackerNews 3 False)))) =
       [story 10, story 30]
   \<and> error (fst (fetchStories offline 30 True showing_7)) \<noteq> None
   \<and> stories (fst (fetchStories offline 30 True showing_7)) = [story 7]
   \<and> displayed (main_view (fst (fetchStories offline 30 True showing_7))) = []"
proof -
  have set: "error (feed (run [Mount, Settle 0 deleted_20, ClickRefresh, Settle 0 offline]
       (HackerNews 3 False))) \<noteq> None"
    "phase (run [Mount, Settle 0 deleted_20, ClickRefresh, Settle 0 offline]
       (HackerNews 3 False)) = Mounted"
    "stories (feed (run [Mount, Settle 0 deleted_20, ClickRefresh, Settle 0 offline]
       (HackerNews 3 False))) = [story 10, story 30]"
    unfolding refresh_failed by simp_all
  have pending: "0 < length (inflight (run [Mount, Settle 0 deleted_20, ClickRefresh]
       (HackerNews 3 False)))"
    "stories (feed (run [Mount, Settle 0 deleted_20, ClickRefresh] (HackerNews 3 False))) =
       [story 10, story 30]"
    unfolding refresh_pending by simp_all
  have failed: "error (fst (fetchStories offline 30 True showing_7)) \<noteq> None"
    "stories showing_7 = [story 7]"
    by (simp_all add: fetchStories_rejected [OF storyResults_offline] showing_7_def)
  have retry: "inflight (call_fetchStories False
       (run [Mount, Settle 0 deleted_20, ClickRefresh, Settle 0 offline] (HackerNews 3 False))) =
       [False]"
    unfolding refresh_failed by (simp add: call_fetchStories_def)
  from set pending failed retry storyResults_offline
    error_phase_keeps_but_hides_stories
      [where es = "[Mount, Settle 0 deleted_20, ClickRefresh, Settle 0 offline]" and lim = 3
        and auto = False and k = 0 and r = offline and e = TypeError
        and c = "run [Mount, Settle 0 deleted_20, ClickRefresh] (HackerNews 3 False)"
        and r' = offline and lim' = 30 and isRefresh = True and st = showing_7]
  show ?thesis by (simp del: step.simps run.simps)
qed

section \<open>The refresh timer\<close>

lemma effect_registers:
  assumes "autoRefresh c" and "intervals c = []"
  shows "intervals (effect c) =
           [\<lparr>timer_id = next_timer c, delay = 300000, due = clock c + 300000\<rparr>]"
  using assms by (simp add: effect_def Let_def call_fetchStories_def setInterval_def)

lemma run_cleanup_idle: "cleanup c = None \<Longrightarrow> run_cleanup c = c"
  by (simp add: run_cleanup_def)

lemma tick_one_interval:
  assumes "intervals c = [t]" and "clock c < due t"
  shows "feed (tick c) = (if Suc (clock c) = due t then fetchStories_begin True (feed c) else feed c)"
    and "inflight (tick c) = (if Suc (clock c) = due t then inflight c @ [True] else inflight c)"
    and "intervals (tick c) =
           (if Suc (clock c) = due t then [t\<lparr>due := due t + delay t\<rparr>] else [t])"
  using assms by (auto simp add: tick_def Let_def call_fetchStories_def)

text \<open>
  What holds of the interval in a state that satisfies \<open>timers_inv\<close>, mounted with
  \<open>autoRefresh\<close>.
\<close>

lemma registered_interval_fires:
  assumes "timers_inv c" and "phase c = Mounted" and "autoRefresh c"
  shows "\<exists>t. intervals c = [t] \<and> delay t = 300000 \<and> cleanup c = Some (timer_id t)
           \<and> clock c < due t \<and> due t \<le> clock c + 300000
           \<and> inflight (advance n c) =
               inflight c @ replicate ((n + (clock c + 300000 - due t)) div 300000) True
           \<and> feed (tick c) =
               (if Suc (clock c) = due t then fetchStories_begin True (feed c) else feed c)
           \<and> inflight (tick c) =
               (if Suc (clock c) = due t then inflight c @ [True] else inflight c)
           \<and> intervals (tick c) =
               (if Suc (clock c) = due t then [t\<lparr>due := due t + 300000\<rparr>] else [t])"
proof -
  from assms obtain t where t: "intervals c = [t]" "delay t = 300000"
    "cleanup c = Some (timer_id t)" "clock c < due t" "due t \<le> clock c + 300000"
    by (auto simp add: timers_inv_def)
  have "inflight (advance n c) =
      inflight c @ replicate ((n + (clock c + delay t - due t)) div delay t) True"
    by (rule advance_one_interval [OF t(1)]) (simp_all add: t)
  then have adv: "inflight (advance n c) =
      inflight c @ replicate ((n + (clock c + 300000 - due t)) div 300000) True"
    by (simp add: t(2))
  from tick_one_interval [OF t(1) t(4)] t(2)
  have tk: "feed (tick c) =
        (if Suc (clock c) = due t then fetchStories_begin True (feed c) else feed c)"
    "inflight (tick c) = (if Suc (clock c) = due t then inflight c @ [True] else inflight c)"
    "intervals (tick c) =
        (if Suc (clock c) = due t then [t\<lparr>due := due t + 300000\<rparr>] else [t])"
    by simp_all
  from t adv tk show ?thesis by blast
qed

lemma toggled_on:
  "run [Mount, SetAutoRefresh True] (HackerNews 30 False) =
     \<lparr>initialLimit = 30, autoRefresh = True, phase = Mounted,
      feed = initial_feed, inflight = [False, False], clock = 0,
      intervals = [\<lparr>timer_id = 0, delay = 300000, due = 300000\<rparr>], next_timer = 1,
      cleanup = Some 0\<rparr>"
  by (simp add: HackerNews_def effect_def call_fetchStories_def setInterval_def
      fetchStories_begin_def initial_feed_def run_cleanup_def)

text \<open>
  Claim C6. In every state the component reaches while it is mounted with
  \<open>autoRefresh\<close> true, however it got there (mounted with the flag, or the flag turned
  on later, with any clicks, settled requests and elapsed time in between), exactly
  one interval is registered, with a delay of 300000 ms and due within the next
  300000 ms. In the millisecond in which it is due it calls \<open>fetchStories(true)\<close>
  and is due again 300000 ms later; in any other millisecond it begins nothing; so in the
  next \<open>n\<close> milliseconds it fires once when it is due and then every 300000 ms. The
  effect registers that interval, due 300000 ms later, when the component is mounted
  with the flag and when the flag is turned on. Unmounting, or a re-render with
  \<open>autoRefresh\<close> off, leaves no interval registered, after which the passing of time
  begins no call and changes no state of the feed; and after an unmount no later event
  registers an interval or begins a call.
\<close>

theorem refresh_timer:
  "(phase (run es (HackerNews lim auto)) = Mounted \<and> autoRefresh (run es (HackerNews lim auto)) \<longrightarrow>
      (\<exists>t. intervals (run es (HackerNews lim auto)) = [t] \<and> delay t = 300000
         \<and> cleanup (run es (HackerNews lim auto)) = Some (timer_id t)
         \<and> clock (run es (HackerNews lim auto)) < due t
         \<and> due t \<le> clock (run es (HackerNews lim auto)) + 300000
         \<and> inflight (advance n (run es (HackerNews lim auto))) =
             inflight (run es (HackerNews lim auto)) @
               replicate ((n + (clock (run es (HackerNews lim auto)) + 300000 - due t))
                            div 300000) True
         \<and> feed (step Tick (run es (HackerNews lim auto))) =
             (if Suc (clock (run es (HackerNews lim auto))) = due t
              then fetchStories_begin True (feed (run es (HackerNews lim auto)))
              else feed (run es (HackerNews lim auto)))
         \<and> inflight (step Tick (run es (HackerNews lim auto))) =
             (if Suc (clock (run es (HackerNews lim auto))) = due t
              then inflight (run es (HackerNews lim auto)) @ [True]
              else inflight (run es (HackerNews lim auto)))
         \<and> intervals (step Tick (run es (HackerNews lim auto))) =
             (if Suc (clock (run es (HackerNews lim auto))) = due t
              then [t\<lparr>due := due t + 300000\<rparr>] else [t])))
   \<and> (phase (run es (HackerNews lim auto)) = Created \<and> autoRefresh (run es (HackerNews lim auto)) \<longrightarrow>
        intervals (step Mount (run es (HackerNews lim auto))) =
          [\<lparr>timer_id = next_timer (run es (HackerNews lim auto)), delay = 300000,
            due = clock (run es (HackerNews lim auto)) + 300000\<rparr>])
   \<and> (phase (run es (HackerNews lim auto)) = Mounted
        \<and> \<not> autoRefresh (run es (HackerNews lim auto)) \<longrightarrow>
        intervals (step (SetAutoRefresh True) (run es (HackerNews lim auto))) =
          [\<lparr>timer_id = next_timer (run es (HackerNews lim auto)), delay = 300000,
            due = clock (run es (HackerNews lim auto)) + 300000\<rparr>])
   \<and> intervals (step Mount (HackerNews lim True)) = [\<lparr>timer_id = 0, delay = 300000, due = 300000\<rparr>]
   \<and> inflight (advance n (step Mount (HackerNews lim True))) =
       False # replicate (n div 300000) True
   \<and> intervals (step Unmount (run es (HackerNews lim auto))) = []
   \<and> intervals (step (SetAutoRefresh False) (run es (HackerNews lim auto))) = []
   \<and> inflight (advance n (step Unmount (run es (HackerNews lim auto)))) =
       inflight (step Unmount (run es (HackerNews lim auto)))
   \<and> feed (advance n (step Unmount (run es (HackerNews lim auto)))) =
       feed (step Unmount (run es (HackerNews lim auto)))
   \<and> inflight (advance n (step (SetAutoRefresh False) (run es (HackerNews lim auto)))) =
       inflight (step (SetAutoRefresh False) (run es (HackerNews lim auto)))
   \<and> feed (advance n (step (SetAutoRefresh False) (run es (HackerNews lim auto)))) =
       feed (step (SetAutoRefresh False) (run es (HackerNews lim auto)))
   \<and> (phase (run es (HackerNews lim auto)) = Mounted \<longrightarrow>
        intervals (run es' (step Unmount (run es (HackerNews lim auto)))) = []
        \<and> length (inflight (run es' (step Unmount (run es (HackerNews lim auto)))))
            \<le> length (inflight (step Unmount (run es (HackerNews lim auto)))))"
proof -
  let ?c = "run es (HackerNews lim auto)"
  let ?m = "step Mount (HackerNews lim True)"
  have inv: "timers_inv ?c"
    by (rule timers_inv_run [OF timers_inv_init])
  have on: "phase ?c = Mounted \<and> autoRefresh ?c \<longrightarrow>
      (\<exists>t. intervals ?c = [t] \<and> delay t = 300000 \<and> cleanup ?c = Some (timer_id t)
         \<and> clock ?c < due t \<and> due t \<le> clock ?c + 300000
         \<and> inflight (advance n ?c) =
             inflight ?c @ replicate ((n + (clock ?c + 300000 - due t)) div 300000) True
         \<and> feed (step Tick ?c) =
             (if Suc (clock ?c) = due t then fetchStories_begin True (feed ?c) else feed ?c)
         \<and> inflight (step Tick ?c) =
             (if Suc (clock ?c) = due t then inflight ?c @ [True] else inflight ?c)
         \<and> intervals (step Tick ?c) =
             (if Suc (clock ?c) = due t then [t\<lparr>due := due t + 300000\<rparr>] else [t]))"
  proof
    assume "phase ?c = Mounted \<and> autoRefresh ?c"
    then have "phase ?c = Mounted" "autoRefresh ?c" by simp_all
    from registered_interval_fires [OF inv this, of n]
    show "\<exists>t. intervals ?c = [t] \<and> delay t = 300000 \<and> cleanup ?c = Some (timer_id t)
         \<and> clock ?c < due t \<and> due t \<le> clock ?c + 300000
         \<and> inflight (advance n ?c) =
             inflight ?c @ replicate ((n + (clock ?c + 300000 - due t)) div 300000) True
         \<and> feed (step Tick ?c) =
             (if Suc (clock ?c) = due t then fetchStories_begin True (feed ?c) else feed ?c)
         \<and> inflight (step Tick ?c) =
             (if Suc (clock ?c) = due t then inflight ?c @ [True] else inflight ?c)
         \<and> intervals (step Tick ?c) =
             (if Suc (clock ?c) = due t then [t\<lparr>due := due t + 300000\<rparr>] else [t])"
      by (simp only: step.simps)
  qed
  have mount: "phase ?c = Created \<and> autoRefresh ?c \<longrightarrow>
        intervals (step Mount ?c) =
          [\<lparr>timer_id = next_timer ?c, delay = 300000, due = clock ?c + 300000\<rparr>]"
  proof
    assume a: "phase ?c = Created \<and> autoRefresh ?c"
    with inv have "intervals ?c = []" by (simp add: timers_inv_def)
    with a have "intervals (effect (?c\<lparr>phase := Mounted\<rparr>)) =
        [\<lparr>timer_id = next_timer (?c\<lparr>phase := Mounted\<rparr>), delay = 300000,
          due = clock (?c\<lparr>phase := Mounted\<rparr>) + 300000\<rparr>]"
      by (intro effect_registers) simp_all
    with a show "intervals (step Mount ?c) =
          [\<lparr>timer_id = next_timer ?c, delay = 300000, due = clock ?c + 300000\<rparr>]"
      by simp
  qed
  have toggle: "phase ?c = Mounted \<and> \<not> autoRefresh ?c \<longrightarrow>
        intervals (step (SetAutoRefresh True) ?c) =
          [\<lparr>timer_id = next_timer ?c, delay = 300000, due = clock ?c + 300000\<rparr>]"
  proof
    assume a: "phase ?c = Mounted \<and> \<not> autoRefresh ?c"
    with inv have idle: "intervals ?c = []" "cleanup ?c = None"
      by (simp_all add: timers_inv_def)
    from idle have "intervals (effect (?c\<lparr>autoRefresh := True\<rparr>)) =
        [\<lparr>timer_id = next_timer (?c\<lparr>autoRefresh := True\<rparr>), delay = 300000,
          due = clock (?c\<lparr>autoRefresh := True\<rparr>) + 300000\<rparr>]"
      by (intro effect_registers) simp_all
    with a idle show "intervals (step (SetAutoRefresh True) ?c) =
          [\<lparr>timer_id = next_timer ?c, delay = 300000, due = clock ?c + 300000\<rparr>]"
      by (simp add: run_cleanup_idle)
  qed
  have reg: "intervals ?m = [\<lparr>timer_id = 0, delay = 300000, due = 300000\<rparr>]"
    unfolding mounted_auto by simp
  have "inflight (advance n ?m) =
      inflight ?m @ replicate ((n + (clock ?m + delay \<lparr>timer_id = 0, delay = 300000, due = 300000\<rparr>
        - due \<lparr>timer_id = 0, delay = 300000, due = 300000\<rparr>))
        div delay \<lparr>timer_id = 0, delay = 300000, due = 300000\<rparr>) True"
    by (rule advance_one_interval [OF reg]) (unfold mounted_auto, simp_all)
  then have fires: "inflight (advance n ?m) = False # replicate (n div 300000) True"
    unfolding mounted_auto by simp
  have "timers_inv (step Unmount ?c)"
    by (rule timers_inv_step [OF inv])
  moreover have "phase (step Unmount ?c) \<noteq> Mounted" by simp
  ultimately have off1: "intervals (step Unmount ?c) = []"
    by (simp add: timers_inv_def)
  have "timers_inv (step (SetAutoRefresh False) ?c)"
    by (rule timers_inv_step [OF inv])
  moreover have "\<not> (phase (step (SetAutoRefresh False) ?c) = Mounted
      \<and> autoRefresh (step (SetAutoRefresh False) ?c))"
    by (auto simp add: effect_fields)
  ultimately have off2: "intervals (step (SetAutoRefresh False) ?c) = []"
    by (simp add: timers_inv_def)
  have after: "phase ?c = Mounted \<longrightarrow>
        intervals (run es' (step Unmount ?c)) = []
        \<and> length (inflight (run es' (step Unmount ?c))) \<le> length (inflight (step Unmount ?c))"
  proof
    assume "phase ?c = Mounted"
    then have "phase (step Unmount ?c) = Unmounted" by simp
    from unmounted_run [OF this off1, of es']
    show "intervals (run es' (step Unmount ?c)) = []
        \<and> length (inflight (run es' (step Unmount ?c))) \<le> length (inflight (step Unmount ?c))"
      by simp
  qed
  have u: "inflight (advance n (step Unmount ?c)) = inflight (step Unmount ?c)"
    "feed (advance n (step Unmount ?c)) = feed (step Unmount ?c)"
    by (simp_all add: advance_no_intervals [OF off1] del: step.simps)
  have t: "inflight (advance n (step (SetAutoRefresh False) ?c)) =
      inflight (step (SetAutoRefresh False) ?c)"
    "feed (advance n (step (SetAutoRefresh False) ?c)) = feed (step (SetAutoRefresh False) ?c)"
    by (simp_all add: advance_no_intervals [OF off2] del: step.simps)
  from on mount toggle reg fires off1 off2 u t after show ?thesis
    by - (intro conjI, assumption+)
qed

theorem refresh_timer_witness:
  "phase (run [Mount, SetAutoRefresh True] (HackerNews 30 False)) = Mounted
   \<and> autoRefresh (run [Mount, SetAutoRefresh True] (HackerNews 30 False))
   \<and> intervals (run [Mount, SetAutoRefresh True] (HackerNews 30 False)) =
       [\<lparr>timer_id = 0, delay = 300000, due = 300000\<rparr>]
   \<and> inflight (advance 900000 (run [Mount, SetAutoRefresh True] (HackerNews 30 False))) =
       [False, False, True, True, True]
   \<and> inflight (step Tick (run [Mount, SetAutoRefresh True] (HackerNews 30 False))) =
       [False, False]
   \<and> intervals (step Unmount (run [Mount, SetAutoRefresh True] (HackerNews 30 False))) = []
   \<and> intervals (run [Tick, Mount, SetAutoRefresh True]
        (step Unmount (run [Mount, SetAutoRefresh True] (HackerNews 30 False)))) = []
   \<and> length (inflight (run [Tick, Mount, SetAutoRefresh True]
        (step Unmount (run [Mount, SetAutoRefresh True] (HackerNews 30 False))))) \<le> 2"
proof -
  let ?c = "run [Mount, SetAutoRefresh True] (HackerNews 30 False)"
  have st: "phase ?c = Mounted" "autoRefresh ?c"
    "intervals ?c = [\<lparr>timer_id = 0, delay = 300000, due = 300000\<rparr>]"
    "inflight ?c = [False, False]" "clock ?c = 0"
    unfolding toggled_on by simp_all
  have unm: "inflight (step Unmount ?c) = [False, False]"
    unfolding toggled_on by (simp add: run_cleanup_def clearInterval_def)
  have three: "replicate 3 True = [True, True, True]"
    by (simp add: numeral_3_eq_3)
  note inst = refresh_timer [where lim = 30 and auto = False
      and es = "[Mount, SetAutoRefresh True]" and n = 900000
      and es' = "[Tick, Mount, SetAutoRefresh True]"]
  from inst st(1,2) obtain t where t: "intervals ?c = [t]"
    "inflight (advance 900000 ?c) =
       inflight ?c @ replicate ((900000 + (clock ?c + 300000 - due t)) div 300000) True"
    "inflight (step Tick ?c) =
       (if Suc (clock ?c) = due t then inflight ?c @ [True] else inflight ?c)"
    by blast
  from t(1) st(3) have "t = \<lparr>timer_id = 0, delay = 300000, due = 300000\<rparr>" by simp
  with t(2,3) st(4,5) have fires: "inflight (advance 900000 ?c) = [False, False, True, True, True]"
    "inflight (step Tick ?c) = [False, False]"
    by (simp_all add: three del: step.simps)
  from inst st(1) have off: "intervals (step Unmount ?c) = []"
    "intervals (run [Tick, Mount, SetAutoRefresh True] (step Unmount ?c)) = []"
    "length (inflight (run [Tick, Mount, SetAutoRefresh True] (step Unmount ?c)))
       \<le> length (inflight (step Unmount ?c))"
    by blast+
  from off(3) unm have "length (inflight (run [Tick, Mount, SetAutoRefresh True]
      (step Unmount ?c))) \<le> 2"
    by (simp del: step.simps run.simps)
  with st fires off(1,2) show ?thesis
    by - (intro conjI, assumption+)
qed

end
